theory Spec2Isabelle
  imports Main "HOL-Library.Word"
begin

unbundle bit_operations_syntax

section \<open>Failures of the Go run time\<close>

text \<open>
  No function of \<^verbatim>\<open>bloomfilter.go\<close> returns an \<^verbatim>\<open>error\<close>: \<^verbatim>\<open>New\<close>, \<^verbatim>\<open>Union\<close> and
  \<^verbatim>\<open>Deserialize\<close> return a \<^verbatim>\<open>*BloomFilter\<close> and nothing else. What can go wrong is what
  the run time raises. A call is modelled with the result type \<open>failure + 'a\<close>, where
  \<open>Inl\<close> says that the call did not return:
  \<^item> \<open>IndexOutOfRange i n\<close>: "index out of range [i] with length n";
  \<^item> \<open>SliceBoundsOutOfRange h c\<close>: "slice bounds out of range [:h] with capacity c";
  \<^item> \<open>DivideByZero\<close>: "integer divide by zero";
  \<^item> \<open>NilDereference\<close>: a method call on a nil interface value;
  \<^item> \<open>MakeLenOutOfRange\<close>: "makeslice: len out of range";
  \<^item> \<open>UnlockOfUnlocked\<close>, \<open>RUnlockOfUnlocked\<close>: the fatal errors of \<^verbatim>\<open>sync.RWMutex\<close>;
  \<^item> \<open>Blocked\<close>: the calling goroutine waits for a lock that nobody releases.

  Integers: \<^verbatim>\<open>uint\<close> and \<^verbatim>\<open>uint64\<close> are \<open>64 word\<close> (a 64-bit platform), \<^verbatim>\<open>byte\<close> is
  \<open>8 word\<close>. The \<^verbatim>\<open>int\<close> parameter of \<^verbatim>\<open>New\<close> is an \<open>int\<close>; a value beyond the range
  of Go's \<^verbatim>\<open>int\<close> is above the limit of \<^verbatim>\<open>make\<close>, as every large length is.
\<close>

datatype failure =
    IndexOutOfRange nat nat
  | SliceBoundsOutOfRange nat nat
  | DivideByZero
  | NilDereference
  | MakeLenOutOfRange
  | UnlockOfUnlocked
  | RUnlockOfUnlocked
  | Blocked

type_synonym byte = "8 word"

section \<open>make\<close>

text \<open>
  \<^verbatim>\<open>make([]T, n)\<close> panics with "makeslice: len out of range" when \<open>n\<close> is negative or
  when \<open>n\<close> elements take more than \<^verbatim>\<open>maxAlloc\<close> bytes, which is \<open>2^48\<close> on a 64-bit
  Linux. A \<^verbatim>\<open>uint\<close> length of \<open>2^63\<close> or more is negative as an \<^verbatim>\<open>int\<close> and above that
  limit as a number: it panics in either reading. Below the limit the slice is made, all
  elements zero: memory itself does not run out. A \<^verbatim>\<open>bool\<close> takes one byte and an
  interface value such as \<^verbatim>\<open>hash.Hash64\<close> sixteen.
\<close>

definition maxAlloc :: nat where
  "maxAlloc = 2 ^ 48"

definition make_slice :: "nat \<Rightarrow> int \<Rightarrow> 'a \<Rightarrow> failure + 'a list" where
  "make_slice elem_size n zero =
     (if n < 0 \<or> int maxAlloc < int elem_size * n then Inl MakeLenOutOfRange
      else Inr (replicate (nat n) zero))"

section \<open>sync.RWMutex, as seen by one goroutine\<close>

text \<open>
  The lock is held by a writer or by a number of readers. With a single caller, a lock
  operation that would have to wait never returns (\<open>Blocked\<close>), and releasing a lock
  that is not held in that mode is a fatal error of the run time.
\<close>

record RWMutex =
  writer :: bool
  readers :: nat

definition Lock :: "RWMutex \<Rightarrow> failure + RWMutex" where
  "Lock m = (if writer m \<or> 0 < readers m then Inl Blocked else Inr (m\<lparr>writer := True\<rparr>))"

definition Unlock :: "RWMutex \<Rightarrow> failure + RWMutex" where
  "Unlock m = (if writer m then Inr (m\<lparr>writer := False\<rparr>) else Inl UnlockOfUnlocked)"

definition RLock :: "RWMutex \<Rightarrow> failure + RWMutex" where
  "RLock m = (if writer m then Inl Blocked else Inr (m\<lparr>readers := Suc (readers m)\<rparr>))"

definition RUnlock :: "RWMutex \<Rightarrow> failure + RWMutex" where
  "RUnlock m =
     (if readers m = 0 then Inl RUnlockOfUnlocked else Inr (m\<lparr>readers := readers m - 1\<rparr>))"

text \<open>
  \<^verbatim>\<open>defer\<close>: the deferred calls run, last one first, when the body has returned and also
  when it has panicked. A fatal error in one of them ends the program; otherwise the
  body's panic goes on to the caller, or the body's value is returned together with the
  lock as the deferred calls left it. The list holds the deferred calls on one lock in
  the order in which they run.
\<close>

fun run_deferred :: "(RWMutex \<Rightarrow> failure + RWMutex) list \<Rightarrow> RWMutex \<Rightarrow> failure + RWMutex" where
  "run_deferred [] m = Inr m"
| "run_deferred (d # ds) m =
     (case d m of Inl fatal \<Rightarrow> Inl fatal | Inr m' \<Rightarrow> run_deferred ds m')"

definition deferred ::
  "(RWMutex \<Rightarrow> failure + RWMutex) list \<Rightarrow> RWMutex \<Rightarrow> failure + 'a \<Rightarrow> failure + ('a \<times> RWMutex)" where
  "deferred ds m body =
     (case run_deferred ds m of
        Inl fatal \<Rightarrow> Inl fatal
      | Inr m' \<Rightarrow> (case body of Inl p \<Rightarrow> Inl p | Inr v \<Rightarrow> Inr (v, m')))"

section \<open>hash/fnv: the 64-bit FNV-1 hash\<close>

type_synonym sum64 = "64 word"

definition offset64 :: sum64 where
  "offset64 = 14695981039346656037"

definition prime64 :: sum64 where
  "prime64 = 1099511628211"

definition New64 :: sum64 where
  "New64 = offset64"

definition sum64_Reset :: "sum64 \<Rightarrow> sum64" where
  "sum64_Reset s = offset64"

fun sum64_Write :: "sum64 \<Rightarrow> byte list \<Rightarrow> sum64" where
  "sum64_Write s [] = s"
| "sum64_Write s (c # cs) = sum64_Write ((s * prime64) XOR ucast c) cs"

definition Sum64 :: "sum64 \<Rightarrow> 64 word" where
  "Sum64 s = s"

section \<open>The filter\<close>

text \<open>
  The struct \<^verbatim>\<open>BloomFilter\<close>. The field \<^verbatim>\<open>size\<close> is \<open>size_bf\<close> here and the method
  \<^verbatim>\<open>Union\<close> is \<open>Union_bf\<close>, since HOL has constants of these names. A slot of
  \<^verbatim>\<open>hashFuncs\<close> is an interface value: \<open>None\<close> is nil, as \<^verbatim>\<open>make\<close> leaves it, \<open>Some s\<close>
  is a hasher in state \<open>s\<close>. A method that returns takes the filter and gives its value
  together with the filter as the call leaves it: the hashers keep the state of their
  last probe. The two floating-point estimates, \<^verbatim>\<open>EstimatedFalsePositiveRate\<close> and
  \<^verbatim>\<open>OptimalNumhashes\<close>, have no part in what follows.
\<close>

record BloomFilter =
  mu :: RWMutex
  bitset :: "bool list"
  size_bf :: "64 word"
  hashFuncs :: "sum64 option list"
  count :: "64 word"

subsection \<open>New\<close>

text \<open>The loop of \<^verbatim>\<open>New\<close>: \<^verbatim>\<open>for i := 0; i <= numHashes; i++ { bf.hashFuncs[i] = fnv.New64() }\<close>.\<close>

function New_loop :: "nat \<Rightarrow> nat \<Rightarrow> sum64 option list \<Rightarrow> failure + sum64 option list" where
  "New_loop i numHashes hs =
     (if i \<le> numHashes
      then (if i < length hs
            then New_loop (Suc i) numHashes (hs[i := Some New64])
            else Inl (IndexOutOfRange i (length hs)))
      else Inr hs)"
  by pat_completeness auto
termination
  by (relation "measure (\<lambda>(i, numHashes, hs). Suc numHashes - i)") auto

declare New_loop.simps [simp del]

text \<open>
  The composite literal of \<^verbatim>\<open>New\<close>, with its two calls of \<^verbatim>\<open>make\<close>:
  \<^verbatim>\<open>&BloomFilter{bitset: make([]bool, size), size: size, hashFuncs: make([]hash.Hash64, numHashes), count: 0}\<close>.
  No statement of \<^verbatim>\<open>New\<close> checks \<^verbatim>\<open>size\<close> or \<^verbatim>\<open>numHashes\<close>: the literal is the first
  one, and the loop follows it.
\<close>

definition New_alloc :: "64 word \<Rightarrow> int \<Rightarrow> failure + BloomFilter" where
  "New_alloc sz numHashes =
     (case make_slice 1 (uint sz) False of
        Inl p \<Rightarrow> Inl p
      | Inr bits \<Rightarrow>
          (case make_slice 16 numHashes None of
             Inl p \<Rightarrow> Inl p
           | Inr slots \<Rightarrow>
               Inr \<lparr>mu = \<lparr>writer = False, readers = 0\<rparr>,
                    bitset = bits,
                    size_bf = sz,
                    hashFuncs = slots,
                    count = 0\<rparr>))"

definition New :: "64 word \<Rightarrow> int \<Rightarrow> failure + BloomFilter" where
  "New sz numHashes =
     (case New_alloc sz numHashes of
        Inl p \<Rightarrow> Inl p
      | Inr bf \<Rightarrow>
          (case New_loop 0 (nat numHashes) (hashFuncs bf) of
             Inl p \<Rightarrow> Inl p
           | Inr slots \<Rightarrow> Inr (bf\<lparr>hashFuncs := slots\<rparr>)))"

subsection \<open>Add and Contains\<close>

text \<open>
  One probe: \<^verbatim>\<open>h.Reset(); h.Write(item); index := h.Sum64() % uint64(bf.size)\<close>. It gives
  the hasher's new state and the index.
\<close>

definition probe :: "sum64 option \<Rightarrow> byte list \<Rightarrow> 64 word \<Rightarrow> failure + (sum64 \<times> nat)" where
  "probe slot item sz =
     (case slot of
        None \<Rightarrow> Inl NilDereference
      | Some h \<Rightarrow>
          (let h' = sum64_Write (sum64_Reset h) item
           in if sz = 0 then Inl DivideByZero
              else Inr (h', unat (Sum64 h' mod sz))))"

fun Add_loop ::
  "sum64 option list \<Rightarrow> byte list \<Rightarrow> 64 word \<Rightarrow> bool list \<Rightarrow>
     failure + (sum64 option list \<times> bool list)" where
  "Add_loop [] item sz bits = Inr ([], bits)"
| "Add_loop (slot # slots) item sz bits =
     (case probe slot item sz of
        Inl p \<Rightarrow> Inl p
      | Inr (h', index) \<Rightarrow>
          if index < length bits
          then (case Add_loop slots item sz (bits[index := True]) of
                  Inl p \<Rightarrow> Inl p
                | Inr (slots', bits') \<Rightarrow> Inr (Some h' # slots', bits'))
          else Inl (IndexOutOfRange index (length bits)))"

definition Add :: "BloomFilter \<Rightarrow> byte list \<Rightarrow> failure + BloomFilter" where
  "Add bf item =
     (case RLock (mu bf) of
        Inl p \<Rightarrow> Inl p
      | Inr m \<Rightarrow>
          (case deferred [RUnlock] m (Add_loop (hashFuncs bf) item (size_bf bf) (bitset bf)) of
             Inl p \<Rightarrow> Inl p
           | Inr ((slots', bits'), m') \<Rightarrow>
               Inr (bf\<lparr>mu := m', bitset := bits', hashFuncs := slots'\<rparr>)))"

fun Contains_loop ::
  "sum64 option list \<Rightarrow> byte list \<Rightarrow> 64 word \<Rightarrow> bool list \<Rightarrow>
     failure + (bool \<times> sum64 option list)" where
  "Contains_loop [] item sz bits = Inr (True, [])"
| "Contains_loop (slot # slots) item sz bits =
     (case probe slot item sz of
        Inl p \<Rightarrow> Inl p
      | Inr (h', index) \<Rightarrow>
          if index < length bits
          then (if \<not> bits ! index then Inr (False, Some h' # slots)
                else (case Contains_loop slots item sz bits of
                        Inl p \<Rightarrow> Inl p
                      | Inr (r, slots') \<Rightarrow> Inr (r, Some h' # slots')))
          else Inl (IndexOutOfRange index (length bits)))"

definition Contains :: "BloomFilter \<Rightarrow> byte list \<Rightarrow> failure + (bool \<times> BloomFilter)" where
  "Contains bf item =
     (case RLock (mu bf) of
        Inl p \<Rightarrow> Inl p
      | Inr m \<Rightarrow>
          (case deferred [RUnlock] m (Contains_loop (hashFuncs bf) item (size_bf bf) (bitset bf)) of
             Inl p \<Rightarrow> Inl p
           | Inr ((r, slots'), m') \<Rightarrow> Inr (r, bf\<lparr>mu := m', hashFuncs := slots'\<rparr>)))"

subsection \<open>Count and Reset\<close>

text \<open>
  \<^verbatim>\<open>Reset\<close> makes a bit array as long as \<^verbatim>\<open>size\<close>, and \<^verbatim>\<open>Serialize\<close> below a buffer of
  \<open>17 + size / 8\<close> bytes. For a filter that holds a bit array of \<^verbatim>\<open>size\<close> entries these
  lengths are within the limit of \<^verbatim>\<open>make\<close>, since that array has been made: the two
  calls are taken to succeed.
\<close>

definition Count :: "BloomFilter \<Rightarrow> failure + (64 word \<times> BloomFilter)" where
  "Count bf =
     (case RLock (mu bf) of
        Inl p \<Rightarrow> Inl p
      | Inr m \<Rightarrow>
          (case deferred [RUnlock] m (Inr (count bf)) of
             Inl p \<Rightarrow> Inl p
           | Inr (c, m') \<Rightarrow> Inr (c, bf\<lparr>mu := m'\<rparr>)))"

definition Reset :: "BloomFilter \<Rightarrow> failure + BloomFilter" where
  "Reset bf =
     (case Lock (mu bf) of
        Inl p \<Rightarrow> Inl p
      | Inr m \<Rightarrow>
          (case deferred [Unlock] m (Inr (replicate (unat (size_bf bf)) False, 0 :: 64 word)) of
             Inl p \<Rightarrow> Inl p
           | Inr ((bits', c'), m') \<Rightarrow> Inr (bf\<lparr>mu := m', bitset := bits', count := c'\<rparr>)))"

subsection \<open>Union\<close>

text \<open>
  The loop of \<^verbatim>\<open>Union\<close>:
  \<^verbatim>\<open>for i := range bf.bitset { result.bitset[i] = bf.bitset[i] || other.bitset[i] }\<close>.
  The right operand of \<^verbatim>\<open>||\<close> is read only where the left one is false.
\<close>

function Union_loop :: "nat \<Rightarrow> bool list \<Rightarrow> bool list \<Rightarrow> bool list \<Rightarrow> failure + bool list" where
  "Union_loop i bits other_bits result_bits =
     (if i < length bits
      then (if bits ! i \<or> i < length other_bits
            then (if i < length result_bits
                  then Union_loop (Suc i) bits other_bits
                         (result_bits[i := (bits ! i \<or> other_bits ! i)])
                  else Inl (IndexOutOfRange i (length result_bits)))
            else Inl (IndexOutOfRange i (length other_bits)))
      else Inr result_bits)"
  by pat_completeness auto
termination
  by (relation "measure (\<lambda>(i, bits, other_bits, result_bits). length bits - i)") auto

declare Union_loop.simps [simp del]

text \<open>
  \<^verbatim>\<open>Union\<close> is called on two distinct filters \<open>bf\<close> and \<open>other\<close>. It returns the
  pointer \<^verbatim>\<open>result\<close> (\<open>None\<close> is nil) and leaves the two operands in a new state, which
  the model returns too. It locks \<^verbatim>\<open>bf.mu\<close> for writing and \<^verbatim>\<open>other.mu\<close> for reading,
  and defers \<^verbatim>\<open>bf.mu.Unlock()\<close> and then \<^verbatim>\<open>bf.mu.RUnlock()\<close>: both on \<^verbatim>\<open>bf.mu\<close>, the
  second one running first.
\<close>

definition Union_body :: "BloomFilter \<Rightarrow> BloomFilter \<Rightarrow> failure + BloomFilter" where
  "Union_body bf other =
     (case New (size_bf bf) (int (length (hashFuncs bf))) of
        Inl p \<Rightarrow> Inl p
      | Inr result \<Rightarrow>
          (case Union_loop 0 (bitset bf) (bitset other) (bitset result) of
             Inl p \<Rightarrow> Inl p
           | Inr bits' \<Rightarrow> Inr (result\<lparr>bitset := bits', count := count bf + count other\<rparr>)))"

definition Union_bf ::
  "BloomFilter \<Rightarrow> BloomFilter \<Rightarrow> failure + (BloomFilter option \<times> BloomFilter \<times> BloomFilter)" where
  "Union_bf bf other =
     (if size_bf bf \<noteq> size_bf other \<or> length (hashFuncs bf) \<noteq> length (hashFuncs other)
      then Inr (None, bf, other)
      else (case Lock (mu bf) of
              Inl p \<Rightarrow> Inl p
            | Inr m \<Rightarrow>
                (case RLock (mu other) of
                   Inl p \<Rightarrow> Inl p
                 | Inr om \<Rightarrow>
                     (case deferred [RUnlock, Unlock] m (Union_body bf other) of
                        Inl p \<Rightarrow> Inl p
                      | Inr (result, m') \<Rightarrow>
                          Inr (Some result, bf\<lparr>mu := m'\<rparr>, other\<lparr>mu := om\<rparr>)))))"

subsection \<open>encoding/binary: little-endian 64-bit values\<close>

text \<open>
  \<^verbatim>\<open>binary.LittleEndian.PutUint64(buf[lo:lo+8], v)\<close> on a buffer whose capacity is its
  length: the slice expression checks its bounds, then byte \<open>k\<close> of the window is
  \<^verbatim>\<open>byte(v >> (8*k))\<close>.
\<close>

definition PutUint64 :: "byte list \<Rightarrow> nat \<Rightarrow> 64 word \<Rightarrow> failure + byte list" where
  "PutUint64 buf lo v =
     (if lo + 8 \<le> length buf
      then Inr (take lo buf @ map (\<lambda>k. ucast (drop_bit (8 * k) v)) [0..<8] @ drop (lo + 8) buf)
      else Inl (SliceBoundsOutOfRange (lo + 8) (length buf)))"

text \<open>\<^verbatim>\<open>binary.LittleEndian.Uint64(b)\<close>, which starts with the bounds check \<^verbatim>\<open>_ = b[7]\<close>.\<close>

definition Uint64 :: "byte list \<Rightarrow> failure + 64 word" where
  "Uint64 b =
     (if 7 < length b
      then Inr (ucast (b ! 0) OR push_bit 8 (ucast (b ! 1)) OR push_bit 16 (ucast (b ! 2))
                OR push_bit 24 (ucast (b ! 3)) OR push_bit 32 (ucast (b ! 4))
                OR push_bit 40 (ucast (b ! 5)) OR push_bit 48 (ucast (b ! 6))
                OR push_bit 56 (ucast (b ! 7)))
      else Inl (IndexOutOfRange 7 (length b)))"

subsection \<open>Serialize\<close>

text \<open>
  The loop of \<^verbatim>\<open>Serialize\<close>:
  \<^verbatim>\<open>for i, bit := range bf.bitset { if bit { serialized[16 + i/8] |= 1 << (uint(i) % 8) } }\<close>.
\<close>

fun Serialize_loop :: "nat \<Rightarrow> bool list \<Rightarrow> byte list \<Rightarrow> failure + byte list" where
  "Serialize_loop i [] serialized = Inr serialized"
| "Serialize_loop i (b # bits) serialized =
     (if b
      then (if 16 + i div 8 < length serialized
            then Serialize_loop (Suc i) bits
                   (serialized[16 + i div 8 := (serialized ! (16 + i div 8)) OR push_bit (i mod 8) 1])
            else Inl (IndexOutOfRange (16 + i div 8) (length serialized)))
      else Serialize_loop (Suc i) bits serialized)"

definition Serialize_body :: "BloomFilter \<Rightarrow> failure + byte list" where
  "Serialize_body bf =
     (case PutUint64 (replicate (unat (8 + 8 + size_bf bf div 8 + 1)) 0) 0 (size_bf bf) of
        Inl p \<Rightarrow> Inl p
      | Inr s1 \<Rightarrow>
          (case PutUint64 s1 8 (count bf) of
             Inl p \<Rightarrow> Inl p
           | Inr s2 \<Rightarrow> Serialize_loop 0 (bitset bf) s2))"

definition Serialize :: "BloomFilter \<Rightarrow> failure + (byte list \<times> BloomFilter)" where
  "Serialize bf =
     (case RLock (mu bf) of
        Inl p \<Rightarrow> Inl p
      | Inr m \<Rightarrow>
          (case deferred [RUnlock] m (Serialize_body bf) of
             Inl p \<Rightarrow> Inl p
           | Inr (serialized, m') \<Rightarrow> Inr (serialized, bf\<lparr>mu := m'\<rparr>)))"

subsection \<open>Deserialize\<close>

text \<open>
  The argument of \<^verbatim>\<open>Deserialize\<close> is a slice: \<open>elems\<close> are its \<^verbatim>\<open>len(data)\<close> bytes and
  \<open>spare\<close> the bytes of its array behind them, up to \<^verbatim>\<open>cap(data)\<close>. A slice expression
  \<^verbatim>\<open>data[lo:hi]\<close> is checked against the capacity, an index \<^verbatim>\<open>data[k]\<close> against the
  length.
\<close>

record byte_slice =
  elems :: "byte list"
  spare :: "byte list"

definition cap :: "byte_slice \<Rightarrow> nat" where
  "cap data = length (elems data) + length (spare data)"

definition slice_expr :: "byte_slice \<Rightarrow> nat \<Rightarrow> nat \<Rightarrow> failure + byte list" where
  "slice_expr data lo hi =
     (if hi \<le> cap data
      then Inr (take (hi - lo) (drop lo (elems data @ spare data)))
      else Inl (SliceBoundsOutOfRange hi (cap data)))"

definition index_expr :: "byte_slice \<Rightarrow> nat \<Rightarrow> failure + byte" where
  "index_expr data k =
     (if k < length (elems data) then Inr (elems data ! k)
      else Inl (IndexOutOfRange k (length (elems data))))"

text \<open>
  The loop of \<^verbatim>\<open>Deserialize\<close>:
  \<^verbatim>\<open>for i := uint(0); i < bf.size; i++ { if data[16 + i/8] & (1 << (i % 8)) != 0 { bf.bitset[i] = true } }\<close>.
\<close>

function Deserialize_loop :: "nat \<Rightarrow> 64 word \<Rightarrow> byte_slice \<Rightarrow> bool list \<Rightarrow> failure + bool list" where
  "Deserialize_loop i sz data bits =
     (if i < unat sz
      then (case index_expr data (16 + i div 8) of
              Inl p \<Rightarrow> Inl p
            | Inr b \<Rightarrow>
                if b AND push_bit (i mod 8) 1 \<noteq> 0
                then (if i < length bits
                      then Deserialize_loop (Suc i) sz data (bits[i := True])
                      else Inl (IndexOutOfRange i (length bits)))
                else Deserialize_loop (Suc i) sz data bits)
      else Inr bits)"
  by pat_completeness auto
termination
  by (relation "measure (\<lambda>(i, sz, data, bits). unat sz - i)") auto

declare Deserialize_loop.simps [simp del]

definition Deserialize :: "byte_slice \<Rightarrow> failure + BloomFilter" where
  "Deserialize data =
     (case slice_expr data 0 8 of
        Inl p \<Rightarrow> Inl p
      | Inr b0 \<Rightarrow>
     (case Uint64 b0 of
        Inl p \<Rightarrow> Inl p
      | Inr sz \<Rightarrow>
     (case slice_expr data 8 16 of
        Inl p \<Rightarrow> Inl p
      | Inr b8 \<Rightarrow>
     (case Uint64 b8 of
        Inl p \<Rightarrow> Inl p
      | Inr cnt \<Rightarrow>
     (case New sz 1 of
        Inl p \<Rightarrow> Inl p
      | Inr bf \<Rightarrow>
     (case Deserialize_loop 0 (size_bf bf) data (bitset bf) of
        Inl p \<Rightarrow> Inl p
      | Inr bits' \<Rightarrow> Inr (bf\<lparr>bitset := bits', count := cnt\<rparr>)))))))"

section \<open>Callers, invariants and sample values\<close>

text \<open>A caller that adds the items of a list one after the other.\<close>

fun Add_all :: "BloomFilter \<Rightarrow> byte list list \<Rightarrow> failure + BloomFilter" where
  "Add_all bf [] = Inr bf"
| "Add_all bf (item # items) =
     (case Add bf item of Inl p \<Rightarrow> Inl p | Inr bf' \<Rightarrow> Add_all bf' items)"

text \<open>
  The invariant of the data model: the bit array has \<open>size\<close> entries, \<open>size\<close> is not
  zero and every hash slot holds a hasher. In addition no writer holds the lock.
\<close>

definition well_formed :: "BloomFilter \<Rightarrow> bool" where
  "well_formed bf \<longleftrightarrow>
     length (bitset bf) = unat (size_bf bf) \<and> size_bf bf \<noteq> 0 \<and>
     None \<notin> set (hashFuncs bf) \<and> \<not> writer (mu bf)"

text \<open>The state of a hasher after a probe of \<open>item\<close>, and the index that the probe yields.\<close>

definition digest :: "byte list \<Rightarrow> sum64" where
  "digest item = sum64_Write offset64 item"

definition index_of :: "byte list \<Rightarrow> 64 word \<Rightarrow> nat" where
  "index_of item sz = unat (digest item mod sz)"

definition le_bytes :: "64 word \<Rightarrow> byte list" where
  "le_bytes v = map (\<lambda>k. ucast (drop_bit (8 * k) v)) [0..<8]"

text \<open>The length of the serialized form in the words of the specification: \<open>16 + ceil(size/8)\<close>.\<close>

definition spec_length :: "nat \<Rightarrow> nat" where
  "spec_length n = 16 + (n + 7) div 8"

text \<open>
  Sample filters: eight bits and one hasher, empty and after \<^verbatim>\<open>Add([]byte("a"))\<close>, with
  their serialized forms; and empty filters of 1000 and 500 bits with three and two hashers.
\<close>

definition filter8 :: BloomFilter where
  "filter8 = \<lparr>mu = \<lparr>writer = False, readers = 0\<rparr>,
              bitset = [False, False, False, False, False, False, False, False],
              size_bf = 8, hashFuncs = [Some 14695981039346656037], count = 0\<rparr>"

definition filter8_a :: BloomFilter where
  "filter8_a = \<lparr>mu = \<lparr>writer = False, readers = 0\<rparr>,
                bitset = [False, False, False, False, False, False, True, False],
                size_bf = 8, hashFuncs = [Some 12638153115695167422], count = 0\<rparr>"

definition bytes8 :: "byte list" where
  "bytes8 = [8, 0, 0, 0, 0, 0, 0, 0, 0, 0, 0, 0, 0, 0, 0, 0, 0, 0]"

definition bytes8_a :: "byte list" where
  "bytes8_a = [8, 0, 0, 0, 0, 0, 0, 0, 0, 0, 0, 0, 0, 0, 0, 0, 64, 0]"

definition empty_filter :: "nat \<Rightarrow> nat \<Rightarrow> BloomFilter" where
  "empty_filter n k = \<lparr>mu = \<lparr>writer = False, readers = 0\<rparr>,
                       bitset = replicate n False,
                       size_bf = of_nat n, hashFuncs = replicate k (Some offset64), count = 0\<rparr>"

section \<open>Facts about the operations\<close>

subsection \<open>The lock around a read\<close>

lemma read_locked: "\<not> writer m \<Longrightarrow> RLock m = Inr (m\<lparr>readers := Suc (readers m)\<rparr>)"
  by (simp add: RLock_def)

lemma read_released: "deferred [RUnlock] (m\<lparr>readers := Suc (readers m)\<rparr>) (Inr v) = Inr (v, m)"
  by (simp add: deferred_def RUnlock_def)

subsection \<open>New runs past its slots\<close>

lemma New_loop_overruns:
  "i \<le> length hs \<Longrightarrow> New_loop i (length hs) hs = Inl (IndexOutOfRange (length hs) (length hs))"
proof (induction "length hs - i" arbitrary: i hs)
  case 0
  then have "i = length hs" by simp
  then show ?case by (simp add: New_loop.simps)
next
  case (Suc d)
  then have lt: "i < length hs" by simp
  have "New_loop (Suc i) (length (hs[i := Some New64])) (hs[i := Some New64])
        = Inl (IndexOutOfRange (length (hs[i := Some New64])) (length (hs[i := Some New64])))"
    using Suc lt by (intro Suc.hyps(1)) simp_all
  then show ?case using lt by (subst New_loop.simps) simp
qed

lemma make_slice_length: "make_slice elem_size n zero = Inr xs \<Longrightarrow> int (length xs) = n"
  by (auto simp: make_slice_def split: if_splits)

lemma New_alloc_slots:
  "New_alloc sz numHashes = Inr bf \<Longrightarrow> int (length (hashFuncs bf)) = numHashes"
  by (auto simp: New_alloc_def split: sum.splits dest: make_slice_length)

lemma uint_above_maxAlloc: "int maxAlloc < uint sz \<longleftrightarrow> maxAlloc < unat sz"
  by (simp only: uint_nat of_nat_less_iff)

lemma make_bits:
  "make_slice 1 (uint sz) False =
     (if maxAlloc < unat sz then Inl MakeLenOutOfRange else Inr (replicate (unat sz) False))"
  by (simp add: make_slice_def uint_above_maxAlloc)

lemma make_slots:
  "make_slice 16 numHashes (None :: sum64 option) =
     (if numHashes < 0 \<or> int maxAlloc < 16 * numHashes then Inl MakeLenOutOfRange
      else Inr (replicate (nat numHashes) None))"
  by (simp add: make_slice_def)

lemma New_alloc_result:
  "New_alloc sz numHashes =
     (if maxAlloc < unat sz \<or> numHashes < 0 \<or> int maxAlloc < 16 * numHashes
      then Inl MakeLenOutOfRange
      else Inr \<lparr>mu = \<lparr>writer = False, readers = 0\<rparr>,
                bitset = replicate (unat sz) False,
                size_bf = sz,
                hashFuncs = replicate (nat numHashes) None,
                count = 0\<rparr>)"
  unfolding New_alloc_def make_bits make_slots by simp

lemma New_never_returns:
  "New sz numHashes =
     Inl (if maxAlloc < unat sz \<or> numHashes < 0 \<or> int maxAlloc < 16 * numHashes
          then MakeLenOutOfRange
          else IndexOutOfRange (nat numHashes) (nat numHashes))"
  using New_loop_overruns [of 0 "replicate (nat numHashes) None"]
  by (simp add: New_def New_alloc_result)

lemma New_one:
  "New sz 1 =
     Inl (if maxAlloc < unat sz then MakeLenOutOfRange else IndexOutOfRange 1 1)"
  by (auto simp: New_never_returns maxAlloc_def)

subsection \<open>Probes\<close>

lemma index_of_less: "sz \<noteq> 0 \<Longrightarrow> index_of item sz < unat sz"
  by (simp add: index_of_def unat_mod unat_gt_0)

lemma probe_Some: "sz \<noteq> 0 \<Longrightarrow> probe (Some h) item sz = Inr (digest item, index_of item sz)"
  by (simp add: probe_def digest_def index_of_def sum64_Reset_def Sum64_def Let_def)

lemma Add_loop_result:
  "None \<notin> set slots \<Longrightarrow> sz \<noteq> 0 \<Longrightarrow> index_of item sz < length bits \<Longrightarrow>
   Add_loop slots item sz bits =
     Inr (map (\<lambda>_. Some (digest item)) slots,
          if slots = [] then bits else bits[index_of item sz := True])"
proof (induction slots arbitrary: bits)
  case Nil
  then show ?case by simp
next
  case (Cons slot slots)
  then obtain h where "slot = Some h" by (cases slot) auto
  then show ?case using Cons by (simp add: probe_Some)
qed

lemma Contains_loop_true:
  "None \<notin> set slots \<Longrightarrow> sz \<noteq> 0 \<Longrightarrow> index_of item sz < length bits \<Longrightarrow>
   bits ! index_of item sz \<Longrightarrow>
   Contains_loop slots item sz bits = Inr (True, map (\<lambda>_. Some (digest item)) slots)"
proof (induction slots)
  case Nil
  then show ?case by simp
next
  case (Cons slot slots)
  then obtain h where "slot = Some h" by (cases slot) auto
  then show ?case using Cons by (simp add: probe_Some)
qed

lemma Add_well_formed:
  assumes "well_formed bf"
  shows "Add bf item =
           Inr (bf\<lparr>bitset := (if hashFuncs bf = [] then bitset bf
                               else (bitset bf)[index_of item (size_bf bf) := True]),
                   hashFuncs := map (\<lambda>_. Some (digest item)) (hashFuncs bf)\<rparr>)"
  using assms index_of_less [of "size_bf bf" item]
  by (simp add: well_formed_def Add_def read_locked Add_loop_result read_released)

lemma Contains_well_formed_true:
  assumes "well_formed bf" and "hashFuncs bf \<noteq> [] \<Longrightarrow> bitset bf ! index_of item (size_bf bf)"
  shows "Contains bf item =
           Inr (True, bf\<lparr>hashFuncs := map (\<lambda>_. Some (digest item)) (hashFuncs bf)\<rparr>)"
proof (cases "hashFuncs bf = []")
  case True
  then show ?thesis using assms by (simp add: well_formed_def Contains_def read_locked read_released)
next
  case False
  then show ?thesis
    using assms index_of_less [of "size_bf bf" item]
    by (simp add: well_formed_def Contains_def read_locked Contains_loop_true read_released)
qed

lemma well_formed_Add:
  assumes "well_formed bf"
  shows "\<exists>bf'. Add bf item = Inr bf' \<and> well_formed bf' \<and> size_bf bf' = size_bf bf \<and>
           (hashFuncs bf' = [] \<longleftrightarrow> hashFuncs bf = []) \<and>
           (\<forall>i. bitset bf ! i \<longrightarrow> i < length (bitset bf) \<longrightarrow> bitset bf' ! i) \<and>
           (hashFuncs bf \<noteq> [] \<longrightarrow> bitset bf' ! index_of item (size_bf bf))"
proof -
  have lt: "index_of item (size_bf bf) < length (bitset bf)"
    using assms index_of_less [of "size_bf bf" item] by (simp add: well_formed_def)
  show ?thesis
    unfolding Add_well_formed [OF assms]
    using assms lt by (auto simp: well_formed_def nth_list_update)
qed

lemma Add_all_keeps:
  "well_formed bf \<Longrightarrow> (hashFuncs bf \<noteq> [] \<Longrightarrow> bitset bf ! index_of item (size_bf bf)) \<Longrightarrow>
   \<exists>bf'. Add_all bf items = Inr bf' \<and> well_formed bf' \<and>
         (hashFuncs bf' \<noteq> [] \<longrightarrow> bitset bf' ! index_of item (size_bf bf'))"
proof (induction items arbitrary: bf)
  case Nil
  then show ?case by auto
next
  case (Cons x items)
  from well_formed_Add [OF Cons.prems(1), of x] obtain bf1 where
    1: "Add bf x = Inr bf1" "well_formed bf1" "size_bf bf1 = size_bf bf"
       "hashFuncs bf1 = [] \<longleftrightarrow> hashFuncs bf = []"
       "\<forall>i. bitset bf ! i \<longrightarrow> i < length (bitset bf) \<longrightarrow> bitset bf1 ! i"
    by blast
  have lt: "index_of item (size_bf bf) < length (bitset bf)"
    using Cons.prems(1) index_of_less [of "size_bf bf" item] by (simp add: well_formed_def)
  have "hashFuncs bf1 \<noteq> [] \<Longrightarrow> bitset bf1 ! index_of item (size_bf bf1)"
    using 1 Cons.prems(2) lt by simp
  from Cons.IH [OF 1(2) this] show ?case using 1(1) by simp
qed

subsection \<open>Sample values\<close>

lemma well_formed_filter8: "well_formed filter8"
  by (simp add: well_formed_def filter8_def)

lemma Add_filter8: "Add filter8 [97] = Inr filter8_a"
  by code_simp

lemma Contains_filter8:
  "Contains filter8 [97] = Inr (False, filter8\<lparr>hashFuncs := [Some 12638153115695167422]\<rparr>)"
  by code_simp

lemma Contains_filter8_a: "Contains filter8_a [97] = Inr (True, filter8_a)"
  by code_simp

lemma Serialize_filter8: "Serialize filter8 = Inr (bytes8, filter8)"
  by code_simp

lemma Serialize_filter8_a: "Serialize filter8_a = Inr (bytes8_a, filter8_a)"
  by code_simp

subsection \<open>Serialize\<close>

lemma serialized_length: "unat (17 + sz div 8 :: 64 word) = 17 + unat sz div 8"
proof -
  have "unat (sz div 8) = unat sz div 8" by (simp add: unat_div)
  moreover have "unat sz < 2 ^ 64" using unsigned_less [of sz, where 'a = nat] by simp
  ultimately have "unat (sz div 8) < 2 ^ 61" by simp
  then have "unat (17 + sz div 8) = 17 + unat (sz div 8)"
    by (simp add: unat_word_ariths)
  then show ?thesis using \<open>unat (sz div 8) = unat sz div 8\<close> by simp
qed

lemma bit_one_shifted: "q < 8 \<Longrightarrow> bit ((2 :: byte) ^ n) q \<longleftrightarrow> q = n"
  by (auto simp: bit_simps)

lemma PutUint64_fits:
  "lo + 8 \<le> length buf \<Longrightarrow>
   PutUint64 buf lo v = Inr (take lo buf @ le_bytes v @ drop (lo + 8) buf)"
  by (simp add: PutUint64_def le_bytes_def)

lemma length_le_bytes: "length (le_bytes v) = 8"
  by (simp add: le_bytes_def)

lemma nth_le_bytes: "k < 8 \<Longrightarrow> le_bytes v ! k = ucast (drop_bit (8 * k) v)"
  by (simp add: le_bytes_def)

text \<open>
  What the loop leaves in the buffer: the first sixteen bytes as they were, and bit \<open>q\<close>
  of byte \<open>p\<close> set where it was set before or where entry \<open>j\<close> of the bit array is true
  and \<open>i + j\<close> is bit \<open>q\<close> of byte \<open>p - 16\<close>.
\<close>

lemma Serialize_loop_result:
  "(bits \<noteq> [] \<longrightarrow> 16 + (i + length bits - 1) div 8 < length out) \<Longrightarrow>
   \<exists>out'. Serialize_loop i bits out = Inr out' \<and> length out' = length out \<and>
     (\<forall>p. p < 16 \<longrightarrow> out' ! p = out ! p) \<and>
     (\<forall>p q. p < length out \<longrightarrow> q < 8 \<longrightarrow>
        bit (out' ! p) q =
          (bit (out ! p) q \<or>
           (\<exists>j<length bits. bits ! j \<and> p = 16 + (i + j) div 8 \<and> q = (i + j) mod 8)))"
proof (induction bits arbitrary: i out)
  case Nil
  then show ?case by simp
next
  case (Cons b bits)
  have here: "16 + i div 8 < length out"
  proof -
    have "i div 8 \<le> (i + length bits) div 8" by (simp add: div_le_mono)
    with Cons.prems show ?thesis by simp
  qed
  define out1 where
    "out1 = (if b then out[16 + i div 8 := (out ! (16 + i div 8)) OR push_bit (i mod 8) 1]
             else out)"
  have len1: "length out1 = length out" by (simp add: out1_def)
  have pre: "bits \<noteq> [] \<longrightarrow> 16 + (Suc i + length bits - 1) div 8 < length out1"
    using Cons.prems by (simp add: len1)
  from Cons.IH [OF pre] obtain out' where
    run: "Serialize_loop (Suc i) bits out1 = Inr out'" and
    len: "length out' = length out1" and
    low: "\<forall>p. p < 16 \<longrightarrow> out' ! p = out1 ! p" and
    bits: "\<forall>p q. p < length out1 \<longrightarrow> q < 8 \<longrightarrow>
        bit (out' ! p) q =
          (bit (out1 ! p) q \<or>
           (\<exists>j<length bits. bits ! j \<and> p = 16 + (Suc i + j) div 8 \<and> q = (Suc i + j) mod 8))"
    by blast
  have step: "Serialize_loop i (b # bits) out = Inr out'"
    using run here by (cases b) (simp_all add: out1_def)
  have low1: "\<forall>p. p < 16 \<longrightarrow> out1 ! p = out ! p"
    by (simp add: out1_def)
  have bit1: "bit (out1 ! p) q = (bit (out ! p) q \<or> (b \<and> p = 16 + i div 8 \<and> q = i mod 8))"
    if "p < length out" "q < 8" for p q
    using that here by (auto simp: out1_def nth_list_update bit_or_iff bit_one_shifted)
  have "bit (out' ! p) q =
          (bit (out ! p) q \<or>
           (\<exists>j<length (b # bits). (b # bits) ! j \<and> p = 16 + (i + j) div 8 \<and> q = (i + j) mod 8))"
    if "p < length out" "q < 8" for p q
  proof -
    have "bit (out' ! p) q =
       ((bit (out ! p) q \<or> (b \<and> p = 16 + i div 8 \<and> q = i mod 8)) \<or>
        (\<exists>j<length bits. bits ! j \<and> p = 16 + (Suc i + j) div 8 \<and> q = (Suc i + j) mod 8))"
      using bits that bit1 [OF that] by (simp add: len1)
    then show ?thesis by (simp add: Ex_less_Suc2)
  qed
  with step len len1 low low1 show ?case by auto
qed

lemma Serialize_body_result:
  assumes "length (bitset bf) = unat (size_bf bf)"
  shows "\<exists>out. Serialize_body bf = Inr out \<and>
           length out = 16 + unat (size_bf bf) div 8 + 1 \<and>
           (\<forall>k<8. out ! k = ucast (drop_bit (8 * k) (size_bf bf))) \<and>
           (\<forall>k<8. out ! (8 + k) = ucast (drop_bit (8 * k) (count bf))) \<and>
           (\<forall>i<unat (size_bf bf). bit (out ! (16 + i div 8)) (i mod 8) = bitset bf ! i)"
proof -
  define n where "n = unat (size_bf bf)"
  define s2 where
    "s2 = le_bytes (size_bf bf) @ le_bytes (count bf) @ replicate (Suc (n div 8)) (0 :: byte)"
  have alloc: "unat (8 + 8 + size_bf bf div 8 + 1) = 17 + n div 8"
    using serialized_length [of "size_bf bf"] by (simp add: n_def)
  have put_size: "PutUint64 (replicate (17 + n div 8) 0) 0 (size_bf bf) =
      Inr (le_bytes (size_bf bf) @ replicate (9 + n div 8) 0)"
    by (simp add: PutUint64_fits)
  have put_count:
    "PutUint64 (le_bytes (size_bf bf) @ replicate (9 + n div 8) 0) 8 (count bf) = Inr s2"
    by (simp add: PutUint64_fits length_le_bytes s2_def)
  have body: "Serialize_body bf = Serialize_loop 0 (bitset bf) s2"
    unfolding Serialize_body_def alloc put_size by (simp add: put_count)
  have len2: "length s2 = 17 + n div 8"
    by (simp add: s2_def length_le_bytes)
  have room: "bitset bf \<noteq> [] \<longrightarrow> 16 + (0 + length (bitset bf) - 1) div 8 < length s2"
  proof -
    have "(n - 1) div 8 \<le> n div 8" by (simp add: div_le_mono)
    then show ?thesis using assms by (simp add: len2 n_def)
  qed
  from Serialize_loop_result [OF room] obtain out where
    run: "Serialize_loop 0 (bitset bf) s2 = Inr out" and
    len: "length out = length s2" and
    low: "\<forall>p. p < 16 \<longrightarrow> out ! p = s2 ! p" and
    bits: "\<forall>p q. p < length s2 \<longrightarrow> q < 8 \<longrightarrow>
        bit (out ! p) q =
          (bit (s2 ! p) q \<or>
           (\<exists>j<length (bitset bf). bitset bf ! j \<and> p = 16 + (0 + j) div 8 \<and> q = (0 + j) mod 8))"
    by blast
  have size_bytes: "out ! k = ucast (drop_bit (8 * k) (size_bf bf))" if "k < 8" for k
    using that low by (simp add: s2_def nth_append length_le_bytes nth_le_bytes)
  have count_bytes: "out ! (8 + k) = ucast (drop_bit (8 * k) (count bf))" if "k < 8" for k
    using that low by (simp add: s2_def nth_append length_le_bytes nth_le_bytes)
  have packed: "bit (out ! (16 + i div 8)) (i mod 8) = bitset bf ! i" if "i < n" for i
  proof -
    have p: "16 + i div 8 < length s2"
    proof -
      have "i div 8 \<le> n div 8" using that by (simp add: div_le_mono)
      then show ?thesis by (simp add: len2)
    qed
    have "s2 ! (16 + i div 8) = replicate (Suc (n div 8)) (0 :: byte) ! (i div 8)"
      by (simp add: s2_def nth_append length_le_bytes del: replicate.simps)
    also have "\<dots> = 0"
      using p by (intro nth_replicate) (simp add: len2)
    finally have zero: "s2 ! (16 + i div 8) = 0" .
    have same: "(16 + i div 8 = 16 + j div 8 \<and> i mod 8 = j mod 8) \<longleftrightarrow> i = j" for j
      by (metis add_left_cancel div_mult_mod_eq)
    have "bit (out ! (16 + i div 8)) (i mod 8) =
            (\<exists>j<length (bitset bf).
               bitset bf ! j \<and> 16 + i div 8 = 16 + j div 8 \<and> i mod 8 = j mod 8)"
      using bits p by (simp add: zero)
    also have "\<dots> = (\<exists>j<length (bitset bf). bitset bf ! j \<and> i = j)"
      using same by simp
    also have "\<dots> = bitset bf ! i"
      using that assms by (auto simp: n_def)
    finally show ?thesis .
  qed
  show ?thesis
    using body run len len2 size_bytes count_bytes packed by (simp add: n_def)
qed

lemma spec_length_cases:
  "16 + n div 8 + 1 = (if 8 dvd n then spec_length n + 1 else spec_length n)"
  unfolding spec_length_def by presburger

lemma Serialize_loop_length:
  "Serialize_loop i bits out = Inr out' \<Longrightarrow> length out' = length out"
proof (induction bits arbitrary: i out)
  case Nil
  then show ?case by simp
next
  case (Cons b bits)
  then show ?case by (cases b) (auto split: if_splits)
qed

lemma Serialize_at_least_header:
  assumes "Serialize bf = Inr (out, bf')"
  shows "16 \<le> length out"
proof -
  have body: "Serialize_body bf = Inr out"
    using assms
    by (auto simp: Serialize_def deferred_def split: sum.splits prod.splits)
  then obtain s1 s2 where
    s1: "PutUint64 (replicate (unat (8 + 8 + size_bf bf div 8 + 1)) 0) 0 (size_bf bf) = Inr s1" and
    s2: "PutUint64 s1 8 (count bf) = Inr s2" and
    run: "Serialize_loop 0 (bitset bf) s2 = Inr out"
    by (auto simp: Serialize_body_def split: sum.splits)
  have "length out = length s2" using run by (rule Serialize_loop_length)
  moreover have "16 \<le> length s2" using s2 by (auto simp: PutUint64_def split: if_splits)
  ultimately show ?thesis by simp
qed

subsection \<open>Deserialize never returns\<close>

lemma slice_expr_length: "slice_expr data lo hi = Inr b \<Longrightarrow> lo + 8 = hi \<Longrightarrow> length b = 8"
  by (auto simp: slice_expr_def cap_def split: if_splits)

lemma Uint64_eight: "length b = 8 \<Longrightarrow> \<exists>v. Uint64 b = Inr v"
  by (simp add: Uint64_def)

lemma Deserialize_with_header:
  assumes "16 \<le> cap data"
  shows "\<exists>sz. Uint64 (take 8 (elems data @ spare data)) = Inr sz \<and>
           Deserialize data =
             Inl (if maxAlloc < unat sz then MakeLenOutOfRange else IndexOutOfRange 1 1)"
proof -
  define b0 where "b0 = take 8 (elems data @ spare data)"
  have b0: "slice_expr data 0 8 = Inr b0"
    using assms by (simp add: slice_expr_def b0_def)
  obtain b8 where b8: "slice_expr data 8 16 = Inr b8"
    using assms by (simp add: slice_expr_def)
  obtain sz where sz: "Uint64 b0 = Inr sz"
    using slice_expr_length [OF b0] Uint64_eight by auto
  obtain cnt where cnt: "Uint64 b8 = Inr cnt"
    using slice_expr_length [OF b8] Uint64_eight by auto
  have "Deserialize data =
          Inl (if maxAlloc < unat sz then MakeLenOutOfRange else IndexOutOfRange 1 1)"
    by (simp add: Deserialize_def b0 b8 sz cnt New_one)
  with sz show ?thesis unfolding b0_def by blast
qed

lemma Deserialize_without_header:
  assumes "cap data < 16"
  shows "Deserialize data =
           Inl (SliceBoundsOutOfRange (if cap data < 8 then 8 else 16) (cap data))"
proof (cases "cap data < 8")
  case True
  then show ?thesis by (simp add: Deserialize_def slice_expr_def)
next
  case False
  then obtain b0 where b0: "slice_expr data 0 8 = Inr b0"
    by (simp add: slice_expr_def)
  obtain sz where sz: "Uint64 b0 = Inr sz"
    using slice_expr_length [OF b0] Uint64_eight by auto
  have "slice_expr data 8 16 = Inl (SliceBoundsOutOfRange 16 (cap data))"
    using assms by (simp add: slice_expr_def)
  then show ?thesis using False b0 sz by (simp add: Deserialize_def)
qed

lemma Deserialize_never_returns: "\<exists>p. Deserialize data = Inl p"
proof (cases "16 \<le> cap data")
  case True
  from Deserialize_with_header [OF True] show ?thesis by blast
next
  case False
  then show ?thesis by (simp add: Deserialize_without_header)
qed

subsection \<open>The header that Serialize writes is the header that Deserialize reads\<close>

lemma bit_byte_of:
  "bit (push_bit m (ucast (ucast (drop_bit m v) :: byte)) :: 64 word) n \<longleftrightarrow>
     m \<le> n \<and> n < m + 8 \<and> bit v n"
  for v :: "64 word"
proof (cases "m \<le> n")
  case True
  then have "m + (n - m) = n" by simp
  moreover have "n - m < 8 \<longleftrightarrow> n < m + 8" using True by linarith
  ultimately show ?thesis
    using True bit_imp_le_length [of v n] by (auto simp: bit_simps)
next
  case False
  then show ?thesis by (simp add: bit_simps)
qed

lemma bit_low_byte_of:
  "bit (ucast (ucast v :: byte) :: 64 word) n \<longleftrightarrow> n < 8 \<and> bit v n"
  for v :: "64 word"
  using bit_imp_le_length [of v n] by (auto simp: bit_simps)

lemma bytes_recompose:
  "ucast (ucast v :: byte) OR push_bit 8 (ucast (ucast (drop_bit 8 v) :: byte))
     OR push_bit 16 (ucast (ucast (drop_bit 16 v) :: byte))
     OR push_bit 24 (ucast (ucast (drop_bit 24 v) :: byte))
     OR push_bit 32 (ucast (ucast (drop_bit 32 v) :: byte))
     OR push_bit 40 (ucast (ucast (drop_bit 40 v) :: byte))
     OR push_bit 48 (ucast (ucast (drop_bit 48 v) :: byte))
     OR push_bit 56 (ucast (ucast (drop_bit 56 v) :: byte)) = (v :: 64 word)"
proof (rule bit_word_eqI)
  fix n :: nat
  assume "n < LENGTH(64)"
  then have n: "n < 64" by simp
  have "bit v n \<Longrightarrow>
        n < 8 \<or> 8 \<le> n \<and> n < 16 \<or> 16 \<le> n \<and> n < 24 \<or> 24 \<le> n \<and> n < 32 \<or>
        32 \<le> n \<and> n < 40 \<or> 40 \<le> n \<and> n < 48 \<or> 48 \<le> n \<and> n < 56 \<or> 56 \<le> n \<and> n < 64"
    using n by linarith
  then show
    "bit (ucast (ucast v :: byte) OR push_bit 8 (ucast (ucast (drop_bit 8 v) :: byte))
       OR push_bit 16 (ucast (ucast (drop_bit 16 v) :: byte))
       OR push_bit 24 (ucast (ucast (drop_bit 24 v) :: byte))
       OR push_bit 32 (ucast (ucast (drop_bit 32 v) :: byte))
       OR push_bit 40 (ucast (ucast (drop_bit 40 v) :: byte))
       OR push_bit 48 (ucast (ucast (drop_bit 48 v) :: byte))
       OR push_bit 56 (ucast (ucast (drop_bit 56 v) :: byte)) :: 64 word) n = bit v n"
    unfolding bit_or_iff bit_byte_of bit_low_byte_of by auto
qed

lemma Uint64_le_bytes: "Uint64 (le_bytes v) = Inr v"
proof -
  have "[0..<8] = [0, 1, 2, 3, 4, 5, 6, 7 :: nat]"
    by (simp add: upt_rec)
  then have bytes: "le_bytes v =
      [ucast v, ucast (drop_bit 8 v), ucast (drop_bit 16 v), ucast (drop_bit 24 v),
       ucast (drop_bit 32 v), ucast (drop_bit 40 v), ucast (drop_bit 48 v),
       ucast (drop_bit 56 v)]"
    by (simp add: le_bytes_def)
  show ?thesis
    unfolding bytes Uint64_def using bytes_recompose [of v] by simp
qed

lemma take_update_behind: "n \<le> k \<Longrightarrow> take n (xs[k := x]) = take n xs"
  by (simp add: take_update_cancel)

lemma Serialize_loop_header:
  "Serialize_loop i bits out = Inr out' \<Longrightarrow> take 16 out' = take 16 out"
proof (induction bits arbitrary: i out)
  case Nil
  then show ?case by simp
next
  case (Cons b bits)
  show ?case
  proof (cases b)
    case True
    with Cons.prems have
      "Serialize_loop (Suc i) bits
         (out[16 + i div 8 := (out ! (16 + i div 8)) OR push_bit (i mod 8) 1]) = Inr out'"
      by (simp split: if_splits)
    from Cons.IH [OF this] show ?thesis by (simp add: take_update_behind)
  next
    case False
    with Cons.prems have "Serialize_loop (Suc i) bits out = Inr out'" by simp
    from Cons.IH [OF this] show ?thesis .
  qed
qed

lemma Serialize_writes_size:
  assumes "Serialize bf = Inr (out, bf')"
  shows "take 8 out = le_bytes (size_bf bf)"
proof -
  have body: "Serialize_body bf = Inr out"
    using assms
    by (auto simp: Serialize_def deferred_def split: sum.splits prod.splits)
  then obtain s1 s2 where
    s1: "PutUint64 (replicate (unat (8 + 8 + size_bf bf div 8 + 1)) 0) 0 (size_bf bf) = Inr s1" and
    s2: "PutUint64 s1 8 (count bf) = Inr s2" and
    run: "Serialize_loop 0 (bitset bf) s2 = Inr out"
    by (auto simp: Serialize_body_def split: sum.splits)
  have "take 8 s1 = le_bytes (size_bf bf)"
    using s1 by (auto simp: PutUint64_def le_bytes_def split: if_splits)
  moreover have "take 8 s2 = take 8 s1"
    using s2 by (auto simp: PutUint64_def split: if_splits)
  moreover have "take 8 out = take 8 s2"
  proof -
    have "take 8 (take 16 out) = take 8 (take 16 s2)"
      using Serialize_loop_header [OF run] by simp
    then show ?thesis by simp
  qed
  ultimately show ?thesis by simp
qed

section \<open>The claims\<close>

text \<open>
  C1. No false negatives. On a filter that satisfies the invariant (\<open>size\<close> bits,
  \<open>size > 0\<close>, a hasher in every slot, no writer on the lock) \<open>Add\<close> of an element
  returns; whatever elements are added afterwards, those calls return too, and then
  \<open>Contains\<close> of the element returns true. The number of hash slots may be any.
\<close>

theorem no_false_negatives:
  assumes "well_formed bf"
  shows "\<exists>bf1 bf2 bf3. Add bf item = Inr bf1 \<and> Add_all bf1 later = Inr bf2 \<and>
           Contains bf2 item = Inr (True, bf3)"
proof -
  from well_formed_Add [OF assms, of item] obtain bf1 where
    1: "Add bf item = Inr bf1" "well_formed bf1" "size_bf bf1 = size_bf bf"
       "hashFuncs bf1 = [] \<longleftrightarrow> hashFuncs bf = []"
       "hashFuncs bf \<noteq> [] \<longrightarrow> bitset bf1 ! index_of item (size_bf bf)"
    by blast
  have "hashFuncs bf1 \<noteq> [] \<Longrightarrow> bitset bf1 ! index_of item (size_bf bf1)"
    using 1 by simp
  from Add_all_keeps [OF 1(2) this, of later] obtain bf2 where
    2: "Add_all bf1 later = Inr bf2" "well_formed bf2"
       "hashFuncs bf2 \<noteq> [] \<longrightarrow> bitset bf2 ! index_of item (size_bf bf2)"
    by blast
  have "Contains bf2 item =
          Inr (True, bf2\<lparr>hashFuncs := map (\<lambda>_. Some (digest item)) (hashFuncs bf2)\<rparr>)"
    using 2 by (intro Contains_well_formed_true) simp_all
  with 1(1) 2(1) show ?thesis by blast
qed

text \<open>
  On the sample filter: \<open>Contains\<close> of "a" is false before the element is added and true
  after it, also when "b" and "c" have been added since.
\<close>

theorem no_false_negatives_witness:
  "well_formed filter8 \<and>
   (\<exists>bf1 bf2 bf3. Add filter8 [97] = Inr bf1 \<and> Add_all bf1 [ [98], [99] ] = Inr bf2 \<and>
      Contains bf2 [97] = Inr (True, bf3)) \<and>
   Contains filter8 [97] = Inr (False, filter8\<lparr>hashFuncs := [Some 12638153115695167422]\<rparr>) \<and>
   Add filter8 [97] = Inr filter8_a \<and>
   Contains filter8_a [97] = Inr (True, filter8_a)"
  using well_formed_filter8 no_false_negatives [OF well_formed_filter8, of "[97]" "[ [98], [99] ]"]
    Contains_filter8 Add_filter8 Contains_filter8_a
  by (intro conjI)

text \<open>
  C2. The claim wants \<open>New\<close> to initialize the slots \<open>[0, hashCount)\<close> and never to touch
  index \<open>hashCount\<close>. The loop of \<open>New\<close> runs while \<open>i <= numHashes\<close>: for every size and
  every \<open>numHashes = k \<ge> 0\<close> that \<^verbatim>\<open>make\<close> accepts it reaches index \<open>k\<close> of the \<open>k\<close>
  slots, and the call ends in the panic "index out of range [k] with length k"; for the
  other sizes and numbers \<^verbatim>\<open>make\<close> has panicked before. \<open>New\<close> returns no filter.
\<close>

theorem New_overruns_slots:
  "New sz (int k) =
     Inl (if maxAlloc < unat sz \<or> maxAlloc < 16 * k then MakeLenOutOfRange
          else IndexOutOfRange k k)"
proof -
  have "int maxAlloc < 16 * int k \<longleftrightarrow> maxAlloc < 16 * k" by linarith
  then show ?thesis by (simp add: New_never_returns)
qed

text \<open>
  C3. The claim wants every \<open>Add\<close> to raise the count by one. \<open>Add\<close> never assigns
  \<open>count\<close>: whenever \<open>Add\<close> returns, \<open>Count\<close> reports after it what it reported before.
\<close>

theorem Add_keeps_count:
  assumes "Add bf item = Inr bf'"
  shows "Count bf = Inr (count bf, bf) \<and> Count bf' = Inr (count bf, bf')"
  using assms
  by (auto simp: Add_def Count_def RLock_def deferred_def RUnlock_def
           split: if_splits sum.splits prod.splits)

theorem Add_keeps_count_witness:
  "Add filter8 [97] = Inr filter8_a \<and>
   Count filter8 = Inr (count filter8, filter8) \<and>
   Count filter8_a = Inr (count filter8, filter8_a) \<and> count filter8 = 0"
  using Add_filter8 Add_keeps_count [OF Add_filter8] by (simp add: filter8_def)

text \<open>
  C4. The claim wants \<open>Deserialize\<close> to rebuild a filter from what \<open>Serialize\<close> wrote.
  Whatever \<open>Serialize\<close> returns, \<open>Deserialize\<close> of these bytes reads the header and
  then calls \<open>New(size, 1)\<close>, which panics with "index out of range [1] with length 1"
  (and in \<^verbatim>\<open>make\<close> where the size is above its limit): no filter comes back, so nothing
  answers \<open>Contains\<close> or \<open>Count\<close>.
\<close>

theorem round_trip_panics:
  assumes "Serialize bf = Inr (out, bf')"
  shows "Deserialize \<lparr>elems = out, spare = []\<rparr> =
           Inl (if maxAlloc < unat (size_bf bf) then MakeLenOutOfRange
                else IndexOutOfRange 1 1)"
proof -
  have "16 \<le> cap \<lparr>elems = out, spare = []\<rparr>"
    using Serialize_at_least_header [OF assms] by (simp add: cap_def)
  from Deserialize_with_header [OF this] obtain sz where
    sz: "Uint64 (take 8 out) = Inr sz" and
    run: "Deserialize \<lparr>elems = out, spare = []\<rparr> =
            Inl (if maxAlloc < unat sz then MakeLenOutOfRange else IndexOutOfRange 1 1)"
    by auto
  have "sz = size_bf bf"
    using sz Serialize_writes_size [OF assms] by (simp add: Uint64_le_bytes)
  with run show ?thesis by simp
qed

theorem round_trip_panics_witness:
  "Serialize filter8_a = Inr (bytes8_a, filter8_a) \<and>
   Deserialize \<lparr>elems = bytes8_a, spare = []\<rparr> = Inl (IndexOutOfRange 1 1)"
  using Serialize_filter8_a round_trip_panics [OF Serialize_filter8_a]
  by (simp add: filter8_a_def maxAlloc_def)

text \<open>
  C5, as the code has it. When the sizes or the numbers of hash slots of the two filters
  differ, \<open>Union\<close> returns nil and leaves both filters as they were. There is no error
  value, and the result is the same nil whichever field differs.
\<close>

theorem Union_mismatch_returns_nil:
  assumes "size_bf bf \<noteq> size_bf other \<or> length (hashFuncs bf) \<noteq> length (hashFuncs other)"
  shows "Union_bf bf other = Inr (None, bf, other)"
  using assms by (auto simp: Union_bf_def)

theorem Union_mismatch_returns_nil_witness:
  "size_bf (empty_filter 1000 3) = 1000 \<and> size_bf (empty_filter 500 3) = 500 \<and>
   Union_bf (empty_filter 1000 3) (empty_filter 500 3) =
     Inr (None, empty_filter 1000 3, empty_filter 500 3)"
proof -
  have h: "size_bf (empty_filter 1000 3) \<noteq> size_bf (empty_filter 500 3) \<or>
    length (hashFuncs (empty_filter 1000 3)) \<noteq> length (hashFuncs (empty_filter 500 3))"
    by (simp add: empty_filter_def)
  show ?thesis using Union_mismatch_returns_nil [OF h] by (simp add: empty_filter_def)
qed

text \<open>
  The claim C5 as stated fails: a (1000, 3) filter united with a (500, 3) filter, and with
  a (1000, 2) filter, gives the nil result both times, not an error that names a field.
\<close>

theorem Union_mismatch_counterexample:
  "Union_bf (empty_filter 1000 3) (empty_filter 500 3) =
     Inr (None, empty_filter 1000 3, empty_filter 500 3) \<and>
   Union_bf (empty_filter 1000 3) (empty_filter 1000 2) =
     Inr (None, empty_filter 1000 3, empty_filter 1000 2)"
  by (simp add: Union_bf_def empty_filter_def)

text \<open>
  C6. The claim wants \<open>Union\<close> of two filters of equal size and equal number of hash
  slots to return their bitwise OR. It never does. The body calls \<open>New\<close>, which panics
  at index \<open>hashCount\<close> (or in \<^verbatim>\<open>make\<close>, above its limit); and the second deferred call is \<open>bf.mu.RUnlock()\<close> on the lock
  that \<open>Union\<close> has just taken for writing, which is the fatal error "RUnlock of unlocked
  RWMutex". With both locks free at the call, that fatal error is how the call ends.
\<close>

theorem Union_never_succeeds:
  assumes "size_bf bf = size_bf other" and "length (hashFuncs bf) = length (hashFuncs other)"
  shows "Union_body bf other =
           Inl (if maxAlloc < unat (size_bf bf) \<or> maxAlloc < 16 * length (hashFuncs bf)
                then MakeLenOutOfRange
                else IndexOutOfRange (length (hashFuncs bf)) (length (hashFuncs bf))) \<and>
         Union_bf bf other =
           Inl (if writer (mu bf) \<or> 0 < readers (mu bf) \<or> writer (mu other) then Blocked
                else RUnlockOfUnlocked)"
proof -
  have "int maxAlloc < 16 * int (length (hashFuncs bf)) \<longleftrightarrow>
        maxAlloc < 16 * length (hashFuncs bf)"
    by linarith
  then have body: "Union_body bf other =
           Inl (if maxAlloc < unat (size_bf bf) \<or> maxAlloc < 16 * length (hashFuncs bf)
                then MakeLenOutOfRange
                else IndexOutOfRange (length (hashFuncs bf)) (length (hashFuncs bf)))"
    by (simp add: Union_body_def New_never_returns)
  have "Union_bf bf other =
           Inl (if writer (mu bf) \<or> 0 < readers (mu bf) \<or> writer (mu other) then Blocked
                else RUnlockOfUnlocked)"
    using assms
    by (simp add: Union_bf_def Lock_def RLock_def deferred_def RUnlock_def)
  with body show ?thesis by (rule conjI)
qed

theorem Union_never_succeeds_witness:
  "size_bf filter8_a = size_bf filter8 \<and>
   length (hashFuncs filter8_a) = length (hashFuncs filter8) \<and>
   Union_body filter8_a filter8 = Inl (IndexOutOfRange 1 1) \<and>
   Union_bf filter8_a filter8 = Inl RUnlockOfUnlocked"
proof -
  have h1: "size_bf filter8_a = size_bf filter8"
    and h2: "length (hashFuncs filter8_a) = length (hashFuncs filter8)"
    by (simp_all add: filter8_def filter8_a_def)
  show ?thesis
    using h1 h2 Union_never_succeeds [OF h1 h2]
    by (simp add: filter8_a_def filter8_def maxAlloc_def)
qed

text \<open>
  C7, as the code has it. \<open>Deserialize\<close> checks neither the length of its input nor the
  size it reads, and it has no error to return. An input too short for the 16 bytes of
  the header ends the call with the slice-bounds panic of the read that runs past the
  input: \<open>data[0:8]\<close> below 8 bytes of capacity, \<open>data[8:16]\<close> from 8 to 15.
\<close>

theorem Deserialize_short_header_panics:
  assumes "cap data < 16"
  shows "Deserialize data =
           Inl (SliceBoundsOutOfRange (if cap data < 8 then 8 else 16) (cap data))"
  using assms by (rule Deserialize_without_header)

theorem Deserialize_short_header_panics_witness:
  "cap \<lparr>elems = [1, 2, 3], spare = []\<rparr> < 16 \<and>
   Deserialize \<lparr>elems = [1, 2, 3], spare = []\<rparr> = Inl (SliceBoundsOutOfRange 8 3)"
proof -
  have h: "cap \<lparr>elems = [1, 2, 3], spare = []\<rparr> < 16" by (simp add: cap_def)
  show ?thesis
    using h Deserialize_short_header_panics [OF h] by (simp add: cap_def)
qed

text \<open>
  The claim C7 as stated fails: eight bytes that declare the size 8 are shorter than the
  17 bytes this size needs, and the call ends with "slice bounds out of range [:16] with
  capacity 8", the out-of-range read itself, not with an error that rejects the input.
\<close>

theorem Deserialize_short_counterexample:
  "Uint64 [8, 0, 0, 0, 0, 0, 0, 0] = Inr 8 \<and>
   length [8, 0, 0, 0, 0, 0, 0, 0 :: byte] < spec_length 8 \<and>
   Deserialize \<lparr>elems = [8, 0, 0, 0, 0, 0, 0, 0], spare = []\<rparr> =
     Inl (SliceBoundsOutOfRange 16 8)"
  by (simp add: Deserialize_def slice_expr_def cap_def Uint64_def spec_length_def)

text \<open>
  C8, as the code has it. For a filter whose bit array has \<open>size\<close> entries and whose lock
  no writer holds, \<open>Serialize\<close> returns \<open>16 + size div 8 + 1\<close> bytes: that is
  \<open>16 + ceil(size/8)\<close> when \<open>size\<close> is not a multiple of 8, and one byte more when it is.
  Byte \<open>k\<close> of the first eight is bits \<open>8k .. 8k+7\<close> of \<open>size\<close>, byte \<open>8 + k\<close> the same
  bits of \<open>count\<close> (little-endian), and entry \<open>i\<close> of the bit array is bit \<open>i mod 8\<close> of
  byte \<open>16 + i div 8\<close>. The filter is left as it was.
\<close>

theorem Serialize_layout:
  assumes "length (bitset bf) = unat (size_bf bf)" and "\<not> writer (mu bf)"
  shows "\<exists>out. Serialize bf = Inr (out, bf) \<and>
           length out = 16 + unat (size_bf bf) div 8 + 1 \<and>
           length out = (if 8 dvd unat (size_bf bf) then spec_length (unat (size_bf bf)) + 1
                         else spec_length (unat (size_bf bf))) \<and>
           (\<forall>k<8. out ! k = ucast (drop_bit (8 * k) (size_bf bf))) \<and>
           (\<forall>k<8. out ! (8 + k) = ucast (drop_bit (8 * k) (count bf))) \<and>
           (\<forall>i<unat (size_bf bf). bit (out ! (16 + i div 8)) (i mod 8) = bitset bf ! i)"
proof -
  from Serialize_body_result [OF assms(1)] obtain out where
    out: "Serialize_body bf = Inr out"
      "length out = 16 + unat (size_bf bf) div 8 + 1"
      "\<forall>k<8. out ! k = ucast (drop_bit (8 * k) (size_bf bf))"
      "\<forall>k<8. out ! (8 + k) = ucast (drop_bit (8 * k) (count bf))"
      "\<forall>i<unat (size_bf bf). bit (out ! (16 + i div 8)) (i mod 8) = bitset bf ! i"
    by blast
  have "Serialize bf = Inr (out, bf)"
    using assms(2) out(1) by (simp add: Serialize_def RLock_def deferred_def RUnlock_def)
  moreover have "length out = (if 8 dvd unat (size_bf bf) then spec_length (unat (size_bf bf)) + 1
                         else spec_length (unat (size_bf bf)))"
    using out(2) spec_length_cases [of "unat (size_bf bf)"] by simp
  ultimately show ?thesis using out by blast
qed

theorem Serialize_layout_witness:
  "length (bitset filter8_a) = unat (size_bf filter8_a) \<and> \<not> writer (mu filter8_a) \<and>
   (\<exists>out. Serialize filter8_a = Inr (out, filter8_a) \<and>
           length out = 16 + unat (size_bf filter8_a) div 8 + 1 \<and>
           length out = (if 8 dvd unat (size_bf filter8_a)
                         then spec_length (unat (size_bf filter8_a)) + 1
                         else spec_length (unat (size_bf filter8_a))) \<and>
           (\<forall>k<8. out ! k = ucast (drop_bit (8 * k) (size_bf filter8_a))) \<and>
           (\<forall>k<8. out ! (8 + k) = ucast (drop_bit (8 * k) (count filter8_a))) \<and>
           (\<forall>i<unat (size_bf filter8_a).
              bit (out ! (16 + i div 8)) (i mod 8) = bitset filter8_a ! i))"
proof -
  have h1: "length (bitset filter8_a) = unat (size_bf filter8_a)"
    and h2: "\<not> writer (mu filter8_a)"
    by (simp_all add: filter8_a_def)
  show ?thesis
    using h1 h2 Serialize_layout [OF h1 h2] by (intro conjI)
qed

text \<open>
  The claim C8 as stated fails on the length: a filter of 8 bits is serialized into 18
  bytes, where \<open>16 + ceil(8/8)\<close> is 17.
\<close>

theorem Serialize_length_counterexample:
  "Serialize filter8 = Inr (bytes8, filter8) \<and> length bytes8 = 18 \<and>
   spec_length (unat (size_bf filter8)) = 17"
  using Serialize_filter8 by (simp add: bytes8_def spec_length_def filter8_def)

text \<open>
  C9, as the code has it. \<open>New\<close> checks neither argument and has no construction error.
  With \<open>size = 0\<close> or \<open>hashCount = 0\<close> (and the other argument one that \<^verbatim>\<open>make\<close>
  accepts) the object is allocated as for any other arguments, with a bit array of no
  entries or with no hash slots, and \<open>New\<close> goes on from it into its slot loop.
\<close>

theorem New_accepts_zero_argument:
  assumes "sz = 0 \<or> numHashes = 0"
    and "unat sz \<le> maxAlloc" and "0 \<le> numHashes" and "16 * numHashes \<le> int maxAlloc"
  shows "\<exists>bf. New_alloc sz numHashes = Inr bf \<and>
           (bitset bf = [] \<or> hashFuncs bf = []) \<and>
           length (bitset bf) = unat sz \<and> size_bf bf = sz \<and>
           hashFuncs bf = replicate (nat numHashes) None \<and> count bf = 0 \<and>
           New sz numHashes =
             (case New_loop 0 (nat numHashes) (hashFuncs bf) of
                Inl p \<Rightarrow> Inl p
              | Inr slots \<Rightarrow> Inr (bf\<lparr>hashFuncs := slots\<rparr>))"
  using assms by (auto simp: New_def New_alloc_result)

theorem New_accepts_zero_argument_witness:
  "((0 :: 64 word) = 0 \<or> (3 :: int) = 0) \<and> unat (0 :: 64 word) \<le> maxAlloc \<and>
   (0 :: int) \<le> 3 \<and> 16 * (3 :: int) \<le> int maxAlloc \<and>
   (\<exists>bf. New_alloc 0 3 = Inr bf \<and>
           (bitset bf = [] \<or> hashFuncs bf = []) \<and>
           length (bitset bf) = unat (0 :: 64 word) \<and> size_bf bf = 0 \<and>
           hashFuncs bf = replicate (nat 3) None \<and> count bf = 0 \<and>
           New 0 3 =
             (case New_loop 0 (nat 3) (hashFuncs bf) of
                Inl p \<Rightarrow> Inl p
              | Inr slots \<Rightarrow> Inr (bf\<lparr>hashFuncs := slots\<rparr>)))"
proof -
  have h1: "(0 :: 64 word) = 0 \<or> (3 :: int) = 0" by simp
  have h2: "unat (0 :: 64 word) \<le> maxAlloc" by simp
  have h3: "(0 :: int) \<le> 3" by simp
  have h4: "16 * (3 :: int) \<le> int maxAlloc" by (simp add: maxAlloc_def)
  show ?thesis
    using h1 h2 h3 h4 New_accepts_zero_argument [OF h1 h2 h3 h4] by (intro conjI)
qed

text \<open>
  The claim C9 as stated fails. \<open>New(0, 3)\<close> does not fail at once with an error about its
  size: the object is allocated with an empty bit array, the loop fills the slots 0, 1
  and 2, and the call then ends in "index out of range [3] with length 3", which is how
  \<open>New(1000, 3)\<close> with its valid arguments ends too. \<open>New(500, 0)\<close> is allocated with no
  slots and ends in "index out of range [0] with length 0".
\<close>

theorem New_zero_argument_counterexample:
  "New_alloc 0 3 =
     Inr \<lparr>mu = \<lparr>writer = False, readers = 0\<rparr>, bitset = [], size_bf = 0,
          hashFuncs = [None, None, None], count = 0\<rparr> \<and>
   New_loop 0 3 [None, None, None] = New_loop 3 3 [Some New64, Some New64, Some New64] \<and>
   New 0 3 = Inl (IndexOutOfRange 3 3) \<and>
   New 1000 3 = Inl (IndexOutOfRange 3 3) \<and>
   New_alloc 500 0 =
     Inr \<lparr>mu = \<lparr>writer = False, readers = 0\<rparr>, bitset = replicate 500 False, size_bf = 500,
          hashFuncs = [], count = 0\<rparr> \<and>
   New 500 0 = Inl (IndexOutOfRange 0 0)"
proof -
  have three: "replicate 3 (None :: sum64 option) = [None, None, None]"
    by (simp add: numeral_3_eq_3)
  have "New_loop 0 3 [None, None, None] = Inl (IndexOutOfRange 3 3)"
    using New_loop_overruns [of 0 "[None, None, None]"] by (simp add: numeral_3_eq_3)
  moreover have "New_loop 3 3 [Some New64, Some New64, Some New64] = Inl (IndexOutOfRange 3 3)"
    using New_loop_overruns [of 3 "[Some New64, Some New64, Some New64]"] by (simp add: numeral_3_eq_3)
  ultimately show ?thesis
    by (simp add: New_alloc_result New_never_returns maxAlloc_def three)
qed

end
